theory Spec2Isabelle
  imports Main "HOL-Library.Sublist" "HOL-Library.List_Lexorder" "HOL-Library.Multiset"
begin

section \<open>TV show browser: strings, numbers and the platform\<close>

text \<open>
  The program is the most complete variant of the browser application (the file with
  \<^verbatim>\<open>openShow\<close>, \<^verbatim>\<open>getJson\<close> and \<^verbatim>\<open>fetchCache\<close>). JavaScript strings are modelled as
  \<^typ>\<open>string\<close> (bytes of the UTF-8 text); the string methods the program calls are
  modelled on the ASCII range, where their behaviour does not depend on Unicode tables:
  \<^verbatim>\<open>toLowerCase\<close> folds \<open>A\<close>..\<open>Z\<close> and leaves every other byte alone, \<^verbatim>\<open>trim\<close> strips
  tab, line feed, vertical tab, form feed, carriage return and space from both ends.
  Numbers that the API delivers (ids, season and episode numbers) are non-negative
  integers, modelled as \<^typ>\<open>nat\<close>.
\<close>

definition toLowerChar :: "char \<Rightarrow> char" where
  "toLowerChar c =
     (case map_of (zip ''ABCDEFGHIJKLMNOPQRSTUVWXYZ'' ''abcdefghijklmnopqrstuvwxyz'') c of
        Some l \<Rightarrow> l
      | None \<Rightarrow> c)"

definition toLowerCase :: "string \<Rightarrow> string" where
  "toLowerCase s = map toLowerChar s"

definition isWhiteSpace :: "char \<Rightarrow> bool" where
  "isWhiteSpace c = (c \<in> set [CHR 0x09, CHR 0x0A, CHR 0x0B, CHR 0x0C, CHR 0x0D, CHR '' ''])"

definition trim :: "string \<Rightarrow> string" where
  "trim s = rev (dropWhile isWhiteSpace (rev (dropWhile isWhiteSpace s)))"

text \<open>\<^verbatim>\<open>haystack.includes(needle)\<close>: the needle occurs at some position of the haystack.\<close>

fun includes_js :: "string \<Rightarrow> string \<Rightarrow> bool" where
  "includes_js [] needle = (needle = [])"
| "includes_js (c # cs) needle = (prefix needle (c # cs) \<or> includes_js cs needle)"

text \<open>\<^verbatim>\<open>parts.join(sep)\<close>.\<close>

fun join :: "string \<Rightarrow> string list \<Rightarrow> string" where
  "join sep [] = []"
| "join sep [x] = x"
| "join sep (x # y # ys) = x @ sep @ join sep (y # ys)"

text \<open>\<^verbatim>\<open>String(n)\<close> for a non-negative integer: its decimal digits, most significant first.\<close>

definition digitChar :: "nat \<Rightarrow> char" where
  "digitChar d = ''0123456789'' ! d"

function String_js :: "nat \<Rightarrow> string" where
  "String_js n =
     (if n < 10 then [digitChar n] else String_js (n div 10) @ [digitChar (n mod 10)])"
  by pat_completeness auto
termination
  by (relation "measure id") auto

declare String_js.simps [simp del]

text \<open>\<^verbatim>\<open>s.padStart(len, '0')\<close> with a one-character filler.\<close>

definition padStart :: "nat \<Rightarrow> char \<Rightarrow> string \<Rightarrow> string" where
  "padStart len c s = replicate (len - length s) c @ s"

text \<open>\<^verbatim>\<open>value || ''\<close> on a field that is a string or \<^verbatim>\<open>null\<close>.\<close>

definition orEmpty :: "'a list option \<Rightarrow> 'a list" where
  "orEmpty v = (case v of None \<Rightarrow> [] | Some s \<Rightarrow> s)"

text \<open>
  Two things the program takes from the browser and that are not part of its source:
  the text content of a parsed markup fragment (\<^verbatim>\<open>DOMParser\<close>; \<open>None\<close> stands for the
  parser throwing), and the collation behind
  \<^verbatim>\<open>localeCompare(other, 'en', {sensitivity: 'base'})\<close>, given by the sort key of a string:
  two strings compare as their sort keys do, byte sequence against byte sequence.
\<close>

record platform =
  parseHtmlText :: "string \<Rightarrow> string option"
  sortKey :: "string \<Rightarrow> nat list"

text \<open>The fallback of \<^verbatim>\<open>extractText\<close>: \<^verbatim>\<open>String(html).replace(/<[^>]*>/g, '')\<close>.\<close>

function stripTags :: "string \<Rightarrow> string" where
  "stripTags [] = []"
| "stripTags (c # cs) =
     (if c = CHR ''<'' \<and> CHR ''>'' \<in> set cs
      then stripTags (tl (dropWhile (\<lambda>d. d \<noteq> CHR ''>'') cs))
      else c # stripTags cs)"
  by pat_completeness auto
termination
proof (relation "measure length")
  fix c :: char and cs :: string
  have "length (tl (dropWhile (\<lambda>d. d \<noteq> CHR ''>'') cs)) \<le> length cs"
    using length_dropWhile_le [of "\<lambda>d. d \<noteq> CHR ''>''" cs] by simp
  then show "(tl (dropWhile (\<lambda>d. d \<noteq> CHR ''>'') cs), c # cs) \<in> measure length"
    by simp
qed simp_all

definition extractText :: "platform \<Rightarrow> string \<Rightarrow> string" where
  "extractText pf htmlString =
     (if htmlString = [] then []
      else (case parseHtmlText pf htmlString of
              Some textContent \<Rightarrow> textContent
            | None \<Rightarrow> stripTags htmlString))"

section \<open>Shows and episodes\<close>

record tvShow =
  show_id :: nat
  show_name :: string
  show_summary :: "string option"
  show_genres :: "string list option"

record episode =
  ep_id :: nat
  ep_season :: nat
  ep_number :: nat
  ep_name :: string
  ep_summary :: "string option"

definition formatEpisodeCode :: "nat \<Rightarrow> nat \<Rightarrow> string" where
  "formatEpisodeCode seasonNumber episodeNumber =
     (let season = padStart 2 (CHR ''0'') (String_js seasonNumber);
          number = padStart 2 (CHR ''0'') (String_js episodeNumber)
      in ''S'' @ season @ ''-E'' @ number)"

subsection \<open>The filters of the two listings\<close>

text \<open>The filter of \<^verbatim>\<open>renderShowsView\<close>.\<close>

definition filterShows :: "platform \<Rightarrow> tvShow list \<Rightarrow> string \<Rightarrow> tvShow list" where
  "filterShows pf tvShows showSearchText =
     (let searchText = trim (toLowerCase showSearchText)
      in filter (\<lambda>sh.
           if searchText = [] then True
           else
             (let name = toLowerCase (show_name sh);
                  summary = toLowerCase (extractText pf (orEmpty (show_summary sh)));
                  genres = toLowerCase (join '' '' (orEmpty (show_genres sh)))
              in includes_js name searchText \<or> includes_js summary searchText
                 \<or> includes_js genres searchText))
         tvShows)"

text \<open>The filter of \<^verbatim>\<open>renderEpisodesView\<close>.\<close>

definition filterEpisodes :: "platform \<Rightarrow> episode list \<Rightarrow> string \<Rightarrow> string \<Rightarrow> episode list" where
  "filterEpisodes pf episodes episodeSearchText selectedEpisodeId =
     (let searchText = trim (toLowerCase episodeSearchText)
      in if selectedEpisodeId \<noteq> []
         then filter (\<lambda>ep. String_js (ep_id ep) = selectedEpisodeId) episodes
         else if searchText \<noteq> []
         then filter (\<lambda>ep.
                let plainSummary = extractText pf (orEmpty (ep_summary ep))
                in includes_js (toLowerCase (ep_name ep)) searchText
                   \<or> includes_js (toLowerCase plainSummary) searchText)
              episodes
         else episodes)"

subsection \<open>Ordering the shows\<close>

text \<open>
  \<^verbatim>\<open>first.name.localeCompare(second.name, 'en', {sensitivity: 'base'})\<close>: negative, zero or
  positive as the sort key of the first name is below, equal to or above the second's.
\<close>

definition localeCompare :: "platform \<Rightarrow> string \<Rightarrow> string \<Rightarrow> int" where
  "localeCompare pf a b =
     (if sortKey pf a < sortKey pf b then - 1 else if sortKey pf a = sortKey pf b then 0 else 1)"

text \<open>
  \<^verbatim>\<open>Array.prototype.sort(compareFn)\<close> is a stable sort: an element moves behind another only
  when the comparator says it is greater. The model inserts the elements from the back
  of the array, each before the first element that is not smaller.
\<close>

fun insertSorted :: "('a \<Rightarrow> 'a \<Rightarrow> int) \<Rightarrow> 'a \<Rightarrow> 'a list \<Rightarrow> 'a list" where
  "insertSorted compareFn x [] = [x]"
| "insertSorted compareFn x (y # ys) =
     (if compareFn x y \<le> 0 then x # y # ys else y # insertSorted compareFn x ys)"

definition sort_js :: "('a \<Rightarrow> 'a \<Rightarrow> int) \<Rightarrow> 'a list \<Rightarrow> 'a list" where
  "sort_js compareFn xs = foldr (insertSorted compareFn) xs []"

text \<open>The ordering step of \<^verbatim>\<open>fetchTVShows\<close>, applied to the fetched array.\<close>

definition alphabeticallyOrdered :: "platform \<Rightarrow> tvShow list \<Rightarrow> tvShow list" where
  "alphabeticallyOrdered pf data =
     sort_js (\<lambda>first second. localeCompare pf (show_name first) (show_name second)) data"

section \<open>The gateway: \<^verbatim>\<open>getJson\<close> and its fetch cache\<close>

text \<open>
  \<^verbatim>\<open>fetchCache\<close> is a \<^verbatim>\<open>Map\<close> from URL to the promise of the request. Promises are objects
  shared by reference, so the model keeps them in a store, addressed by their position,
  and the map holds positions. \<open>requests\<close> is the list of the calls of \<^verbatim>\<open>fetch(url)\<close>,
  in the order they were made.
\<close>

datatype 'a promise = Pending | Fulfilled 'a | Rejected

text \<open>
  What the network gives for one request: \<^verbatim>\<open>fetch\<close> rejects, or a response arrives with
  its \<^verbatim>\<open>ok\<close> flag and its body (\<open>None\<close> when \<^verbatim>\<open>response.json()\<close> rejects).
\<close>

datatype 'a response = NetworkError | Response bool "'a option"

record 'a gateway =
  fetchCache :: "string \<rightharpoonup> nat"
  promises :: "'a promise list"
  requests :: "string list"

definition emptyGateway :: "'a gateway" where
  "emptyGateway = \<lparr>fetchCache = Map.empty, promises = [], requests = []\<rparr>"

definition promiseAt :: "'a gateway \<Rightarrow> nat \<Rightarrow> 'a promise option" where
  "promiseAt g request = (if request < length (promises g) then Some (promises g ! request) else None)"

text \<open>
  \<^verbatim>\<open>getJson(url)\<close> up to its \<^verbatim>\<open>return\<close>: a cached promise is returned as it is; otherwise
  the request starts (\<^verbatim>\<open>fetch(url)\<close> is called), and its promise, still pending, is put
  into the cache and returned.
\<close>

definition getJson :: "string \<Rightarrow> 'a gateway \<Rightarrow> nat \<times> 'a gateway" where
  "getJson url g =
     (case fetchCache g url of
        Some request \<Rightarrow> (request, g)
      | None \<Rightarrow>
          (let request = length (promises g)
           in (request,
               g\<lparr>fetchCache := (fetchCache g)(url \<mapsto> request),
                 promises := promises g @ [Pending],
                 requests := requests g @ [url]\<rparr>)))"

text \<open>The body of the request, once the network has answered.\<close>

definition requestOutcome :: "'a response \<Rightarrow> 'a promise" where
  "requestOutcome r =
     (case r of
        NetworkError \<Rightarrow> Rejected
      | Response ok body \<Rightarrow>
          if \<not> ok then Rejected
          else (case body of None \<Rightarrow> Rejected | Some data \<Rightarrow> Fulfilled data))"

text \<open>
  The network answers the request for \<open>url\<close>: its promise settles. This can only happen
  to a URL that was requested and whose promise is still pending.
\<close>

definition settle :: "string \<Rightarrow> 'a response \<Rightarrow> 'a gateway \<Rightarrow> (nat \<times> 'a gateway) option" where
  "settle url r g =
     (case fetchCache g url of
        None \<Rightarrow> None
      | Some request \<Rightarrow>
          (case promiseAt g request of
             Some Pending \<Rightarrow>
               Some (request, g\<lparr>promises := (promises g)[request := requestOutcome r]\<rparr>)
           | _ \<Rightarrow> None))"

text \<open>A session of the gateway alone: calls of \<^verbatim>\<open>getJson\<close> and answers of the network.\<close>

datatype 'a gateway_op = GetJson string | Answer string "'a response"

fun gatewayStep :: "'a gateway_op \<Rightarrow> 'a gateway \<Rightarrow> 'a gateway option" where
  "gatewayStep (GetJson url) g = Some (snd (getJson url g))"
| "gatewayStep (Answer url r) g = map_option snd (settle url r g)"

fun gatewayRun :: "'a gateway_op list \<Rightarrow> 'a gateway \<Rightarrow> 'a gateway option" where
  "gatewayRun [] g = Some g"
| "gatewayRun (op # ops) g =
     (case gatewayStep op g of None \<Rightarrow> None | Some g' \<Rightarrow> gatewayRun ops g')"

definition showsUrl :: string where
  "showsUrl = ''https://api.tvmaze.com/shows''"

definition episodesUrl :: "nat \<Rightarrow> string" where
  "episodesUrl tvShowID = ''https://api.tvmaze.com/shows/'' @ String_js tvShowID @ ''/episodes''"

definition fetchEpisodes :: "nat \<Rightarrow> 'a gateway \<Rightarrow> nat \<times> 'a gateway" where
  "fetchEpisodes tvShowID g = getJson (episodesUrl tvShowID) g"

section \<open>Application state and the page\<close>

datatype app_status = Idle | Loading | Loaded | Error

datatype view = ShowsView | EpisodesView

text \<open>
  The global \<^verbatim>\<open>state\<close> object. \<^verbatim>\<open>state.shows\<close> is the field \<open>tvShows\<close>; the object
  \<^verbatim>\<open>episodesByShowId\<close> is a map from property keys, which are strings.
\<close>

record app_state =
  status :: app_status
  errorMessage :: string
  currentView :: view
  tvShows :: "tvShow list"
  showSearchText :: string
  episodesByShowId :: "string \<rightharpoonup> episode list"
  selectedShowId :: string
  episodeSearchText :: string
  selectedEpisodeId :: string

definition initialState :: app_state where
  "initialState =
     \<lparr>status = Idle, errorMessage = [], currentView = ShowsView, tvShows = [],
      showSearchText = [], episodesByShowId = Map.empty, selectedShowId = [],
      episodeSearchText = [], selectedEpisodeId = []\<rparr>"

text \<open>The two resources of the API answer with an array of shows and an array of episodes.\<close>

datatype json = ShowsJson "tvShow list" | EpisodesJson "episode list"

text \<open>
  What the element \<^verbatim>\<open>#root\<close> holds: nothing yet, a line of text, the cards of the shows
  listing, or the page of an episode listing (its heading and its cards). The toolbars,
  the two select controls and the result counters are not modelled.
\<close>

datatype display =
  Blank
  | Message string
  | ShowCards "tvShow list"
  | EpisodePage string "episode list"

text \<open>An \<^verbatim>\<open>async\<close> function suspended at its \<^verbatim>\<open>await\<close>, with what it still has to do.\<close>

datatype task = SetupAwaitsShows | OpenShowAwaitsEpisodes nat

record world =
  state :: app_state
  net :: "json gateway"
  awaiting :: "(nat \<times> task) list"
  root :: display
  listening :: bool

definition initialWorld :: world where
  "initialWorld =
     \<lparr>state = initialState, net = emptyGateway, awaiting = [], root = Blank,
      listening = False\<rparr>"

definition loadingText :: string where
  "loadingText = ''Loading'' @ [CHR 0xE2, CHR 0x80, CHR 0xA6]"

definition renderStatus :: "world \<Rightarrow> world" where
  "renderStatus w =
     (if status (state w) = Loading then w\<lparr>root := Message loadingText\<rparr>
      else if status (state w) = Error
      then w\<lparr>root := Message
                (if errorMessage (state w) \<noteq> [] then errorMessage (state w)
                 else ''An error occurred while loading episodes.'')\<rparr>
      else w)"

definition renderShowsView :: "platform \<Rightarrow> world \<Rightarrow> world" where
  "renderShowsView pf w =
     w\<lparr>root := ShowCards (filterShows pf (tvShows (state w)) (showSearchText (state w)))\<rparr>"

definition renderEpisodesView :: "platform \<Rightarrow> world \<Rightarrow> world" where
  "renderEpisodesView pf w =
     (let showId = selectedShowId (state w);
          found = find (\<lambda>candidate. String_js (show_id candidate) = showId) (tvShows (state w))
      in if showId = [] then w\<lparr>root := Message ''Select a show to view episodes.''\<rparr>
         else
           (let episodes = orEmpty (episodesByShowId (state w) showId);
                filteredEpisodes =
                  filterEpisodes pf episodes (episodeSearchText (state w))
                    (selectedEpisodeId (state w))
            in w\<lparr>root := EpisodePage
                   (case found of Some sh \<Rightarrow> show_name sh | None \<Rightarrow> ''Episodes'')
                   filteredEpisodes\<rparr>))"

definition render :: "platform \<Rightarrow> world \<Rightarrow> world" where
  "render pf w =
     (if status (state w) = Loading \<or> status (state w) = Error then renderStatus w
      else if currentView (state w) = ShowsView then renderShowsView pf w
      else renderEpisodesView pf w)"

section \<open>The controller\<close>

text \<open>
  What a suspended function does when the promise it awaits has settled. \<open>None\<close>: the
  payload is not the array that the API contract gives for this resource, which the
  model excludes.

  \<^item> \<^verbatim>\<open>setup\<close>, after \<^verbatim>\<open>fetchTVShows\<close>: the shows are ordered and stored, the shows listing
    is rendered; on a rejection the \<^verbatim>\<open>catch\<close> block sets the error state.
  \<^item> \<^verbatim>\<open>openShow\<close>, after \<^verbatim>\<open>fetchEpisodes\<close>: the episodes are stored under the show id and
    the page is rendered; on a rejection the exception leaves \<^verbatim>\<open>openShow\<close>, which has no
    \<^verbatim>\<open>try\<close>, and none of its remaining statements run.
\<close>

fun resume :: "platform \<Rightarrow> task \<Rightarrow> json promise \<Rightarrow> world \<Rightarrow> world option" where
  "resume pf SetupAwaitsShows (Fulfilled (ShowsJson data)) w =
     Some (render pf
       (w\<lparr>state := (state w)\<lparr>tvShows := alphabeticallyOrdered pf data,
                              status := Loaded, currentView := ShowsView\<rparr>\<rparr>))"
| "resume pf SetupAwaitsShows Rejected w =
     Some (renderStatus
       (w\<lparr>state := (state w)\<lparr>status := Error,
                              errorMessage := ''Unable to load shows. Please try again.''\<rparr>\<rparr>))"
| "resume pf (OpenShowAwaitsEpisodes tvShowId) (Fulfilled (EpisodesJson episodes)) w =
     Some (render pf
       (w\<lparr>state := (state w)\<lparr>episodesByShowId :=
                                (episodesByShowId (state w))(String_js tvShowId \<mapsto> episodes),
                              status := Loaded\<rparr>\<rparr>))"
| "resume pf (OpenShowAwaitsEpisodes tvShowId) Rejected w = Some w"
| "resume pf _ _ w = None"

text \<open>
  \<^verbatim>\<open>await promise\<close>: the function continues at once (before any other event) when the
  promise has settled, and is suspended otherwise.
\<close>

definition await :: "platform \<Rightarrow> nat \<Rightarrow> task \<Rightarrow> world \<Rightarrow> world option" where
  "await pf request t w =
     (case promiseAt (net w) request of
        None \<Rightarrow> None
      | Some Pending \<Rightarrow> Some (w\<lparr>awaiting := awaiting w @ [(request, t)]\<rparr>)
      | Some outcome \<Rightarrow> resume pf t outcome w)"

definition setupApp :: "platform \<Rightarrow> world \<Rightarrow> world option" where
  "setupApp pf w =
     (let w1 = renderStatus (w\<lparr>state := (state w)\<lparr>status := Loading\<rparr>\<rparr>);
          w2 = w1\<lparr>listening := True\<rparr>;
          (request, g) = getJson showsUrl (net w2)
      in await pf request SetupAwaitsShows (w2\<lparr>net := g\<rparr>))"

definition openShow :: "platform \<Rightarrow> nat \<Rightarrow> world \<Rightarrow> world option" where
  "openShow pf tvShowId w =
     (let w1 = w\<lparr>state := (state w)\<lparr>selectedShowId := String_js tvShowId,
                                     currentView := EpisodesView,
                                     selectedEpisodeId := [],
                                     episodeSearchText := []\<rparr>\<rparr>
      in case episodesByShowId (state w1) (String_js tvShowId) of
           Some cachedEpisodes \<Rightarrow> Some (render pf w1)
         | None \<Rightarrow>
             (let w2 = renderStatus (w1\<lparr>state := (state w1)\<lparr>status := Loading\<rparr>\<rparr>);
                  (request, g) = fetchEpisodes tvShowId (net w2)
              in await pf request (OpenShowAwaitsEpisodes tvShowId) (w2\<lparr>net := g\<rparr>)))"

definition episodeSelectionDidChange :: "platform \<Rightarrow> string \<Rightarrow> world \<Rightarrow> world" where
  "episodeSelectionDidChange pf v w =
     render pf (w\<lparr>state := (state w)\<lparr>selectedEpisodeId := v\<rparr>\<rparr>)"

definition episodeSearchDidChange :: "platform \<Rightarrow> string \<Rightarrow> world \<Rightarrow> world" where
  "episodeSearchDidChange pf v w =
     render pf (w\<lparr>state := (state w)\<lparr>episodeSearchText := v, selectedEpisodeId := []\<rparr>\<rparr>)"

definition showSearchDidChange :: "platform \<Rightarrow> string \<Rightarrow> world \<Rightarrow> world" where
  "showSearchDidChange pf v w = render pf (w\<lparr>state := (state w)\<lparr>showSearchText := v\<rparr>\<rparr>)"

definition backToShows :: "platform \<Rightarrow> world \<Rightarrow> world" where
  "backToShows pf w = render pf (w\<lparr>state := (state w)\<lparr>currentView := ShowsView\<rparr>\<rparr>)"

text \<open>The suspended functions that wait for one promise continue in the order they came.\<close>

fun resumeAll :: "platform \<Rightarrow> task list \<Rightarrow> json promise \<Rightarrow> world \<Rightarrow> world option" where
  "resumeAll pf [] outcome w = Some w"
| "resumeAll pf (t # ts) outcome w =
     (case resume pf t outcome w of None \<Rightarrow> None | Some w' \<Rightarrow> resumeAll pf ts outcome w')"

definition transportDone :: "platform \<Rightarrow> string \<Rightarrow> json response \<Rightarrow> world \<Rightarrow> world option" where
  "transportDone pf url r w =
     (case settle url r (net w) of
        None \<Rightarrow> None
      | Some (request, g) \<Rightarrow>
          resumeAll pf
            (map snd (filter (\<lambda>a. fst a = request) (awaiting w)))
            (requestOutcome r)
            (w\<lparr>net := g, awaiting := filter (\<lambda>a. fst a \<noteq> request) (awaiting w)\<rparr>))"

text \<open>
  The events of a session: the page has loaded (\<^verbatim>\<open>window.onload\<close>, once), the user types
  into a search box, opens a show (a card, a title button or the show selector call
  \<^verbatim>\<open>openShow\<close> with the show's id), picks an entry of the episode selector, goes back
  to the shows, or the network answers a request. The listeners exist once \<^verbatim>\<open>setup\<close> has
  attached them. \<open>None\<close>: the event cannot happen in this state.
\<close>

datatype event =
  PageLoaded
  | ShowSearchInput string
  | OpenShow nat
  | EpisodeSelectChange string
  | EpisodeSearchInput string
  | BackClick
  | NetworkAnswer string "json response"

fun step :: "platform \<Rightarrow> event \<Rightarrow> world \<Rightarrow> world option" where
  "step pf PageLoaded w = (if listening w then None else setupApp pf w)"
| "step pf (NetworkAnswer url r) w = transportDone pf url r w"
| "step pf (ShowSearchInput v) w =
     (if listening w then Some (showSearchDidChange pf v w) else None)"
| "step pf (OpenShow tvShowId) w = (if listening w then openShow pf tvShowId w else None)"
| "step pf (EpisodeSelectChange v) w =
     (if listening w then Some (episodeSelectionDidChange pf v w) else None)"
| "step pf (EpisodeSearchInput v) w =
     (if listening w then Some (episodeSearchDidChange pf v w) else None)"
| "step pf BackClick w = (if listening w then Some (backToShows pf w) else None)"

fun run :: "platform \<Rightarrow> event list \<Rightarrow> world \<Rightarrow> world option" where
  "run pf [] w = Some w"
| "run pf (e # es) w = (case step pf e w of None \<Rightarrow> None | Some w' \<Rightarrow> run pf es w')"

section \<open>The specification's side\<close>

text \<open>
  The definitions of this section follow the words of the specification, not the code;
  the theorems compare them with the functions above.
\<close>

definition isDigit :: "char \<Rightarrow> bool" where
  "isDigit c = (c \<in> set ''0123456789'')"

definition digitValue :: "char \<Rightarrow> nat" where
  "digitValue c =
     (case map_of (zip ''0123456789'' [0, 1, 2, 3, 4, 5, 6, 7, 8, 9]) c of
        Some d \<Rightarrow> d
      | None \<Rightarrow> 0)"

text \<open>The number that a string of decimal digits denotes.\<close>

definition decimalValue :: "string \<Rightarrow> nat" where
  "decimalValue s = foldl (\<lambda>acc c. 10 * acc + digitValue c) 0 s"

text \<open>
  A component of an episode code for the number \<open>n\<close>: decimal digits that denote \<open>n\<close>, at
  least two of them, and with a leading zero only to reach two.
\<close>

definition zero_padded_two :: "nat \<Rightarrow> string \<Rightarrow> bool" where
  "zero_padded_two n s =
     (list_all isDigit s \<and> decimalValue s = n \<and> 2 \<le> length s
      \<and> (length s = 2 \<or> 0 < digitValue (hd s)))"

text \<open>
  \<open>filter_shows\<close>: with an empty trimmed, case-folded search text all shows, unchanged;
  otherwise the shows whose folded name, folded plain-text summary or folded space-joined
  genre list contains the search text as a substring.
\<close>

definition show_matches :: "platform \<Rightarrow> string \<Rightarrow> tvShow \<Rightarrow> bool" where
  "show_matches pf q sh =
     (sublist q (toLowerCase (show_name sh))
      \<or> sublist q (toLowerCase (extractText pf (orEmpty (show_summary sh))))
      \<or> sublist q (toLowerCase (join '' '' (orEmpty (show_genres sh)))))"

definition spec_filter_shows :: "platform \<Rightarrow> tvShow list \<Rightarrow> string \<Rightarrow> tvShow list" where
  "spec_filter_shows pf all_shows search_text =
     (if trim (toLowerCase search_text) = [] then all_shows
      else filter (show_matches pf (trim (toLowerCase search_text))) all_shows)"

text \<open>
  \<open>filter_episodes\<close>: with a selected episode id, the one episode that has this id, or
  nothing when there is none; else the episodes matching a non-empty search text; else
  all episodes.
\<close>

definition episode_matches :: "platform \<Rightarrow> string \<Rightarrow> episode \<Rightarrow> bool" where
  "episode_matches pf q ep =
     (sublist q (toLowerCase (ep_name ep))
      \<or> sublist q (toLowerCase (extractText pf (orEmpty (ep_summary ep)))))"

definition spec_filter_episodes ::
  "platform \<Rightarrow> episode list \<Rightarrow> string \<Rightarrow> string \<Rightarrow> episode list" where
  "spec_filter_episodes pf all_episodes search_text selected_episode_id =
     (if selected_episode_id \<noteq> []
      then (case find (\<lambda>ep. String_js (ep_id ep) = selected_episode_id) all_episodes of
              Some ep \<Rightarrow> [ep]
            | None \<Rightarrow> [])
      else if trim (toLowerCase search_text) \<noteq> []
      then filter (episode_matches pf (trim (toLowerCase search_text))) all_episodes
      else all_episodes)"

section \<open>A sample browser and sample data\<close>

text \<open>
  A browser for the examples: the text content of a fragment is what remains without
  its tags, and the sort key of a string is its bytes after case folding (which is how
  English collation orders words of unaccented letters).
\<close>

definition sampleBrowser :: platform where
  "sampleBrowser =
     \<lparr>parseHtmlText = (\<lambda>html. Some (stripTags html)),
      sortKey = (\<lambda>s. map of_char (toLowerCase s))\<rparr>"

definition mkShow :: "nat \<Rightarrow> string \<Rightarrow> string \<Rightarrow> string list \<Rightarrow> tvShow" where
  "mkShow i n s gs = \<lparr>show_id = i, show_name = n, show_summary = Some s, show_genres = Some gs\<rparr>"

definition mkEpisode :: "nat \<Rightarrow> nat \<Rightarrow> nat \<Rightarrow> string \<Rightarrow> string \<Rightarrow> episode" where
  "mkEpisode i s k n t =
     \<lparr>ep_id = i, ep_season = s, ep_number = k, ep_name = n, ep_summary = Some t\<rparr>"

definition sampleShows :: "tvShow list" where
  "sampleShows =
     [mkShow 10 ''Zeta'' ''<p>Last letter</p>'' [''Drama''],
      mkShow 11 ''alpha'' ''<p>First <b>letter</b></p>'' [''Comedy'', ''Crime''],
      mkShow 12 ''Beta'' [] []]"

definition sampleEpisodes :: "episode list" where
  "sampleEpisodes =
     [mkEpisode 4 1 1 ''Pilot'' ''<p>It begins.</p>'',
      mkEpisode 5 1 2 ''Second'' ''<p>After the <i>pilot</i>.</p>'',
      mkEpisode 6 1 3 ''Third'' ''<p>The end.</p>'']"

section \<open>Sessions used as examples\<close>

definition sampleStart :: "event list" where
  "sampleStart =
     [PageLoaded,
      NetworkAnswer showsUrl (Response True (Some (ShowsJson sampleShows))),
      OpenShow 10,
      NetworkAnswer (episodesUrl 10) (Response True (Some (EpisodesJson sampleEpisodes)))]"

definition sampleWorld :: world where
  "sampleWorld = the (run sampleBrowser sampleStart initialWorld)"

definition cachedEpisodes :: "string \<Rightarrow> world \<Rightarrow> episode list option" where
  "cachedEpisodes k w = episodesByShowId (state w) k"

definition failingSession :: "event list" where
  "failingSession = sampleStart @ [BackClick, OpenShow 11, NetworkAnswer (episodesUrl 11) NetworkError]"

definition caseShows :: "tvShow list" where
  "caseShows = [mkShow 1 ''beta'' [] [], mkShow 2 ''Alpha'' [] [], mkShow 3 ''BETA'' [] []]"

definition pendingGateway :: "json gateway" where
  "pendingGateway = snd (getJson (episodesUrl 11) emptyGateway)"

definition failedGateway :: "json gateway" where
  "failedGateway = snd (the (settle (episodesUrl 11) NetworkError pendingGateway))"

definition laterGateway :: "json gateway" where
  "laterGateway =
     the (gatewayRun [GetJson (episodesUrl 11), GetJson showsUrl, GetJson (episodesUrl 11)]
            failedGateway)"

section \<open>Invariants\<close>

text \<open>
  Properties that every state of a session has; they are what the proofs below carry
  through the events. Every requested URL is in the fetch cache and was requested once.
\<close>

definition requested_once :: "'a gateway \<Rightarrow> bool" where
  "requested_once g = (distinct (requests g) \<and> set (requests g) \<subseteq> dom (fetchCache g))"

text \<open>From one gateway state to a later one, cache entries and settled promises stay.\<close>

definition kept :: "'a gateway \<Rightarrow> 'a gateway \<Rightarrow> bool" where
  "kept g g' =
     ((\<forall>url h. fetchCache g url = Some h \<longrightarrow> fetchCache g' url = Some h)
      \<and> (\<forall>h p. promiseAt g h = Some p \<and> p \<noteq> Pending \<longrightarrow> promiseAt g' h = Some p))"

text \<open>A suspended function waits for a promise that exists.\<close>

definition world_ok :: "world \<Rightarrow> bool" where
  "world_ok w =
     (requested_once (net w)
      \<and> list_all (\<lambda>a. fst a < length (promises (net w))) (awaiting w))"

text \<open>
  Episode URLs in the fetch cache, stored episode lists and suspended calls of
  \<^verbatim>\<open>openShow\<close> belong to shows of the set \<open>S\<close> (the shows opened so far).
\<close>

definition traces_opened :: "nat set \<Rightarrow> world \<Rightarrow> bool" where
  "traces_opened S w =
     ((\<forall>url h. fetchCache (net w) url = Some h \<longrightarrow> url = showsUrl \<or> url \<in> episodesUrl ` S)
      \<and> (\<forall>k eps. episodesByShowId (state w) k = Some eps \<longrightarrow> k \<in> String_js ` S)
      \<and> (\<forall>a \<in> set (awaiting w). \<forall>m. snd a = OpenShowAwaitsEpisodes m \<longrightarrow> m \<in> S))"

fun openedBy :: "event \<Rightarrow> nat set" where
  "openedBy (OpenShow n) = {n}"
| "openedBy _ = {}"

section \<open>Evaluation of the samples\<close>

lemmas session_eval =
  sampleStart_def showsUrl_def episodesUrl_def String_js.simps digitChar_def
  setupApp_def openShow_def await_def transportDone_def settle_def getJson_def fetchEpisodes_def
  promiseAt_def requestOutcome_def renderStatus_def render_def renderShowsView_def
  renderEpisodesView_def episodeSelectionDidChange_def episodeSearchDidChange_def
  showSearchDidChange_def backToShows_def initialWorld_def initialState_def emptyGateway_def
  cachedEpisodes_def Let_def

lemmas gateway_eval =
  pendingGateway_def failedGateway_def laterGateway_def getJson_def settle_def promiseAt_def
  requestOutcome_def emptyGateway_def showsUrl_def episodesUrl_def String_js.simps digitChar_def
  Let_def

section \<open>Substrings, decimal numbers and the episode code\<close>

lemma includes_js_sublist: "includes_js hay needle = sublist needle hay"
  by (induction hay) (auto simp: sublist_Cons_right)

lemma digitValue_digitChar: "d < 10 \<Longrightarrow> digitValue (digitChar d) = d"
proof -
  assume "d < 10"
  then have "d \<in> {0, 1, 2, 3, 4, 5, 6, 7, 8, 9}" by auto
  then show ?thesis
    by (auto simp: digitValue_def digitChar_def)
qed

lemma isDigit_digitChar: "d < 10 \<Longrightarrow> isDigit (digitChar d)"
proof -
  assume "d < 10"
  then have "d \<in> {0, 1, 2, 3, 4, 5, 6, 7, 8, 9}" by auto
  then show ?thesis
    by (auto simp: isDigit_def digitChar_def)
qed

lemma decimalValue_snoc: "decimalValue (s @ [c]) = 10 * decimalValue s + digitValue c"
  by (simp add: decimalValue_def)

lemma decimalValue_String_js: "decimalValue (String_js n) = n"
proof (induction n rule: String_js.induct)
  case (1 n)
  show ?case
  proof (cases "n < 10")
    case True
    then show ?thesis
      by (simp add: String_js.simps [of n] decimalValue_def digitValue_digitChar)
  next
    case False
    with 1 have "decimalValue (String_js (n div 10)) = n div 10" by simp
    with False show ?thesis
      by (simp add: String_js.simps [of n] decimalValue_snoc digitValue_digitChar)
  qed
qed

lemma String_js_inj: "String_js a = String_js b \<Longrightarrow> a = b"
  by (metis decimalValue_String_js)

lemma String_js_digits: "list_all isDigit (String_js n)"
proof (induction n rule: String_js.induct)
  case (1 n)
  show ?case
  proof (cases "n < 10")
    case True
    then show ?thesis by (simp add: String_js.simps [of n] isDigit_digitChar)
  next
    case False
    with 1 show ?thesis by (simp add: String_js.simps [of n] isDigit_digitChar)
  qed
qed

lemma String_js_not_Nil: "String_js n \<noteq> []"
  by (simp add: String_js.simps [of n])

lemma String_js_length_one: "length (String_js n) < 2 \<Longrightarrow> n < 10"
proof (rule ccontr)
  assume short: "length (String_js n) < 2" and "\<not> n < 10"
  then have "length (String_js n) = length (String_js (n div 10)) + 1"
    by (simp add: String_js.simps [of n])
  moreover have "0 < length (String_js (n div 10))"
    using String_js_not_Nil by simp
  ultimately show False using short by simp
qed

lemma String_js_hd: "0 < n \<Longrightarrow> 0 < digitValue (hd (String_js n))"
proof (induction n rule: String_js.induct)
  case (1 n)
  show ?case
  proof (cases "n < 10")
    case True
    with 1(2) show ?thesis
      by (simp add: String_js.simps [of n] digitValue_digitChar)
  next
    case False
    then have "0 < n div 10" by simp
    with 1(1) False have "0 < digitValue (hd (String_js (n div 10)))" by simp
    with False show ?thesis
      by (simp add: String_js.simps [of n] String_js_not_Nil)
  qed
qed

lemma decimalValue_zeros: "decimalValue (replicate k (CHR ''0'') @ s) = decimalValue s"
proof -
  have "foldl (\<lambda>acc c. 10 * acc + digitValue c) 0 (replicate k (CHR ''0'')) = 0"
    by (induction k) (simp_all add: digitValue_def)
  then show ?thesis by (simp add: decimalValue_def)
qed

lemma padStart_zero_padded: "zero_padded_two n (padStart 2 (CHR ''0'') (String_js n))"
proof (cases "length (String_js n) < 2")
  case True
  then have "n < 10" by (rule String_js_length_one)
  then have s: "String_js n = [digitChar n]" by (simp add: String_js.simps [of n])
  have z: "isDigit (CHR ''0'')" "digitValue (CHR ''0'') = 0"
    by (simp_all add: isDigit_def digitValue_def)
  have "padStart 2 (CHR ''0'') (String_js n) = [CHR ''0'', digitChar n]"
    by (simp add: s padStart_def)
  moreover have "decimalValue [CHR ''0'', digitChar n] = n"
    using \<open>n < 10\<close> by (simp add: decimalValue_def z digitValue_digitChar)
  ultimately show ?thesis
    using \<open>n < 10\<close> by (simp add: zero_padded_two_def z isDigit_digitChar)
next
  case False
  then have p: "padStart 2 (CHR ''0'') (String_js n) = String_js n"
    by (simp add: padStart_def)
  have "length (String_js n) = 2 \<or> 0 < digitValue (hd (String_js n))"
  proof (cases "n < 10")
    case True
    with False show ?thesis by (simp add: String_js.simps [of n])
  next
    case False
    then show ?thesis using String_js_hd [of n] by simp
  qed
  with False show ?thesis
    by (simp add: p zero_padded_two_def String_js_digits decimalValue_String_js)
qed

text \<open>
  Claim C8. For every season number and episode number the episode code is \<open>S\<close>, the
  season, \<open>-E\<close> and the number, each of the two written in decimal and padded with a
  zero to two digits when it has only one; \<open>formatEpisodeCode 1 7\<close> is \<open>S01-E07\<close> and
  \<open>formatEpisodeCode 12 3\<close> is \<open>S12-E03\<close>.
\<close>

theorem formatEpisodeCode_zero_padded:
  "(\<exists>season number.
      formatEpisodeCode a b = ''S'' @ season @ ''-E'' @ number
      \<and> zero_padded_two a season \<and> zero_padded_two b number)
   \<and> formatEpisodeCode 1 7 = ''S01-E07''
   \<and> formatEpisodeCode 12 3 = ''S12-E03''"
proof (intro conjI)
  show "\<exists>season number.
      formatEpisodeCode a b = ''S'' @ season @ ''-E'' @ number
      \<and> zero_padded_two a season \<and> zero_padded_two b number"
    using padStart_zero_padded [of a] padStart_zero_padded [of b]
    by (auto simp: formatEpisodeCode_def Let_def)
  show "formatEpisodeCode 1 7 = ''S01-E07''"
    by (simp add: formatEpisodeCode_def padStart_def String_js.simps digitChar_def)
  show "formatEpisodeCode 12 3 = ''S12-E03''"
    by (simp add: formatEpisodeCode_def padStart_def String_js.simps digitChar_def)
qed

section \<open>The filters\<close>

lemma filterShows_eq_spec: "filterShows pf tvs t = spec_filter_shows pf tvs t"
  by (simp add: filterShows_def spec_filter_shows_def show_matches_def [abs_def] Let_def
      includes_js_sublist)

text \<open>
  Claim C4. The filter of the shows listing returns what the specification's
  \<open>filter_shows\<close> returns: with an empty trimmed, case-folded search text all shows, in
  their order and number; otherwise exactly the shows whose folded name, folded plain
  text of the summary or folded space-joined genres contain the trimmed, folded search
  text; and nothing when no show matches.
\<close>

theorem filterShows_meets_spec:
  "filterShows pf tvs t = spec_filter_shows pf tvs t
   \<and> (trim (toLowerCase t) = [] \<longrightarrow>
        filterShows pf tvs t = tvs \<and> length (filterShows pf tvs t) = length tvs)
   \<and> (trim (toLowerCase t) \<noteq> [] \<longrightarrow>
        filterShows pf tvs t = filter (show_matches pf (trim (toLowerCase t))) tvs)
   \<and> ((\<forall>sh \<in> set tvs. \<not> show_matches pf (trim (toLowerCase t)) sh) \<longrightarrow>
        filterShows pf tvs t = [])"
proof -
  have noMatch: "filterShows pf tvs t = []"
    if "\<forall>sh \<in> set tvs. \<not> show_matches pf (trim (toLowerCase t)) sh"
  proof (cases "trim (toLowerCase t) = []")
    case True
    have "show_matches pf (trim (toLowerCase t)) sh" for sh
      by (simp add: True show_matches_def)
    with that have "\<forall>sh \<in> set tvs. False" by simp
    then have "tvs = []" by (cases tvs) auto
    then show ?thesis by (simp add: filterShows_def)
  next
    case False
    with that show ?thesis
      by (simp add: filterShows_eq_spec spec_filter_shows_def)
  qed
  show ?thesis
    using noMatch by (simp add: filterShows_eq_spec spec_filter_shows_def)
qed

lemma sample_no_match:
  "\<forall>sh \<in> set sampleShows. \<not> show_matches sampleBrowser (trim (toLowerCase ''zzzz-no-match'')) sh"
  by (simp add: sampleShows_def mkShow_def show_matches_def includes_js_sublist [symmetric]
      toLowerCase_def toLowerChar_def trim_def isWhiteSpace_def extractText_def
      sampleBrowser_def orEmpty_def)

theorem filterShows_meets_spec_witness:
  "trim (toLowerCase ''  '') = []
   \<and> filterShows sampleBrowser sampleShows ''  '' = sampleShows
   \<and> length (filterShows sampleBrowser sampleShows ''  '') = length sampleShows
   \<and> \<not> list_ex (show_matches sampleBrowser (trim (toLowerCase ''zzzz-no-match''))) sampleShows
   \<and> filterShows sampleBrowser sampleShows ''zzzz-no-match'' = []"
proof -
  have e: "trim (toLowerCase ''  '') = []"
    by (simp add: toLowerCase_def toLowerChar_def trim_def isWhiteSpace_def)
  have n: "\<not> list_ex (show_matches sampleBrowser (trim (toLowerCase ''zzzz-no-match''))) sampleShows"
    using sample_no_match by (simp add: list_ex_iff)
  show ?thesis
    using e n sample_no_match
      filterShows_meets_spec [of sampleBrowser sampleShows "''  ''"]
      filterShows_meets_spec [of sampleBrowser sampleShows "''zzzz-no-match''"]
    by blast
qed

lemma filter_by_id:
  "distinct (map ep_id eps) \<Longrightarrow>
   filter (\<lambda>ep. String_js (ep_id ep) = sel) eps =
     (case find (\<lambda>ep. String_js (ep_id ep) = sel) eps of Some ep \<Rightarrow> [ep] | None \<Rightarrow> [])"
proof (induction eps)
  case Nil
  then show ?case by simp
next
  case (Cons e es)
  show ?case
  proof (cases "String_js (ep_id e) = sel")
    case True
    have "filter (\<lambda>ep. String_js (ep_id ep) = sel) es = []"
    proof (rule filter_False, rule ballI)
      fix x assume "x \<in> set es"
      from Cons.prems have "ep_id e \<notin> ep_id ` set es" by simp
      with \<open>x \<in> set es\<close> have "ep_id x \<noteq> ep_id e" by (metis imageI)
      with True show "\<not> String_js (ep_id x) = sel"
        using String_js_inj [of "ep_id x" "ep_id e"] by auto
    qed
    with True show ?thesis by simp
  next
    case False
    with Cons show ?thesis by simp
  qed
qed

text \<open>
  Claim C3. On episodes with distinct ids, the filter of the episodes listing returns
  what the specification's \<open>filter_episodes\<close> returns: with a selected episode id the one
  episode with this id (none when no episode has it); otherwise, with a non-empty
  trimmed, folded search text, exactly the episodes whose folded name or folded plain
  text of the summary contain it; otherwise all episodes in their order.
\<close>

theorem filterEpisodes_meets_spec:
  assumes "distinct (map ep_id eps)"
  shows "filterEpisodes pf eps t sel = spec_filter_episodes pf eps t sel
   \<and> (sel \<noteq> [] \<longrightarrow> length (filterEpisodes pf eps t sel) \<le> 1
        \<and> set (filterEpisodes pf eps t sel) = {ep \<in> set eps. String_js (ep_id ep) = sel})
   \<and> (sel = [] \<and> trim (toLowerCase t) \<noteq> [] \<longrightarrow>
        filterEpisodes pf eps t sel = filter (episode_matches pf (trim (toLowerCase t))) eps)
   \<and> (sel = [] \<and> trim (toLowerCase t) = [] \<longrightarrow> filterEpisodes pf eps t sel = eps)"
proof -
  let ?byId = "filter (\<lambda>ep. String_js (ep_id ep) = sel) eps"
  have one: "length ?byId \<le> 1"
    using filter_by_id [OF assms, of sel] by (simp split: option.splits)
  have sel: "filterEpisodes pf eps t sel = ?byId" if "sel \<noteq> []"
    using that by (simp add: filterEpisodes_def)
  have spec: "filterEpisodes pf eps t sel = spec_filter_episodes pf eps t sel"
    using filter_by_id [OF assms, of sel]
    by (simp add: filterEpisodes_def spec_filter_episodes_def episode_matches_def [abs_def]
        Let_def includes_js_sublist)
  have search: "filterEpisodes pf eps t sel = filter (episode_matches pf (trim (toLowerCase t))) eps"
    if "sel = []" "trim (toLowerCase t) \<noteq> []"
    using that
    by (simp add: filterEpisodes_def episode_matches_def [abs_def] Let_def includes_js_sublist)
  have all: "filterEpisodes pf eps t sel = eps" if "sel = []" "trim (toLowerCase t) = []"
    using that by (simp add: filterEpisodes_def)
  show ?thesis
    using one sel search all spec by auto
qed

theorem filterEpisodes_meets_spec_witness:
  "distinct (map ep_id sampleEpisodes)
   \<and> filterEpisodes sampleBrowser sampleEpisodes ''pilot'' ''5''
       = spec_filter_episodes sampleBrowser sampleEpisodes ''pilot'' ''5''
   \<and> map ep_id (filterEpisodes sampleBrowser sampleEpisodes ''pilot'' ''5'') = [5]
   \<and> filterEpisodes sampleBrowser sampleEpisodes ''pilot'' ''77'' = []
   \<and> map ep_id (filterEpisodes sampleBrowser sampleEpisodes '' Pilot '' []) = [4, 5]
   \<and> filterEpisodes sampleBrowser sampleEpisodes ''  '' [] = sampleEpisodes"
proof -
  have d: "distinct (map ep_id sampleEpisodes)"
    by (simp add: sampleEpisodes_def mkEpisode_def)
  have "map ep_id (spec_filter_episodes sampleBrowser sampleEpisodes ''pilot'' ''5'') = [5]"
    by (simp add: spec_filter_episodes_def sampleEpisodes_def mkEpisode_def String_js.simps
        digitChar_def)
  moreover have "spec_filter_episodes sampleBrowser sampleEpisodes ''pilot'' ''77'' = []"
    by (simp add: spec_filter_episodes_def sampleEpisodes_def mkEpisode_def String_js.simps
        digitChar_def)
  moreover have "map ep_id (spec_filter_episodes sampleBrowser sampleEpisodes '' Pilot '' []) = [4, 5]"
    by (simp add: spec_filter_episodes_def sampleEpisodes_def mkEpisode_def episode_matches_def
        includes_js_sublist [symmetric] toLowerCase_def toLowerChar_def trim_def
        isWhiteSpace_def extractText_def sampleBrowser_def orEmpty_def)
  moreover have "spec_filter_episodes sampleBrowser sampleEpisodes ''  '' [] = sampleEpisodes"
    by (simp add: spec_filter_episodes_def toLowerCase_def toLowerChar_def trim_def
        isWhiteSpace_def)
  ultimately show ?thesis
    using d
      filterEpisodes_meets_spec [OF d, of sampleBrowser "''pilot''" "''5''"]
      filterEpisodes_meets_spec [OF d, of sampleBrowser "''pilot''" "''77''"]
      filterEpisodes_meets_spec [OF d, of sampleBrowser "'' Pilot ''" "[]"]
      filterEpisodes_meets_spec [OF d, of sampleBrowser "''  ''" "[]"]
    by simp
qed

text \<open>
  Claim C9. While an episode is selected, the result of the episode filter does not
  depend on the search text.
\<close>

theorem selection_hides_search:
  "sel \<noteq> [] \<Longrightarrow> filterEpisodes pf eps t1 sel = filterEpisodes pf eps t2 sel"
  by (simp add: filterEpisodes_def)

theorem selection_hides_search_witness:
  "''5'' \<noteq> []
   \<and> filterEpisodes sampleBrowser sampleEpisodes ''pilot'' ''5''
       = filterEpisodes sampleBrowser sampleEpisodes ''the end'' ''5''"
proof -
  have n: "''5'' \<noteq> []" by simp
  from n selection_hides_search [OF n, of sampleBrowser sampleEpisodes "''pilot''" "''the end''"]
  show ?thesis by blast
qed

section \<open>The order of the shows\<close>

lemma insertSorted_insort:
  "insertSorted (\<lambda>a b. localeCompare pf (f a) (f b)) x ys = insort_key (\<lambda>a. sortKey pf (f a)) x ys"
  by (induction ys) (auto simp: localeCompare_def)

lemma sort_js_sort_key:
  "sort_js (\<lambda>a b. localeCompare pf (f a) (f b)) xs = sort_key (\<lambda>a. sortKey pf (f a)) xs"
  by (induction xs) (simp_all add: sort_js_def insertSorted_insort)

lemma alphabeticallyOrdered_sort_key:
  "alphabeticallyOrdered pf data = sort_key (\<lambda>sh. sortKey pf (show_name sh)) data"
  by (simp add: alphabeticallyOrdered_def sort_js_sort_key)

lemma toLowerChar_idem: "toLowerChar (toLowerChar c) = toLowerChar c"
  by (simp add: toLowerChar_def)

lemma toLowerCase_idem: "toLowerCase (toLowerCase s) = toLowerCase s"
  by (simp add: toLowerCase_def toLowerChar_idem)

text \<open>
  Claim C7. The fetched shows are stored in the order of the sort keys of their names,
  which is the order of the browser's collation: the stored list is sorted by key, it is a
  permutation of the fetched list, shows with equal keys keep their fetch order, and so
  do shows whose names differ in case only when the collation ignores case. The
  startup stores exactly this list. With the sample browser, shows named \<open>Zeta\<close>,
  \<open>alpha\<close>, \<open>Beta\<close> come out as \<open>alpha\<close>, \<open>Beta\<close>, \<open>Zeta\<close>.
\<close>

theorem shows_ordered_by_name:
  "sorted (map (sortKey pf \<circ> show_name) (alphabeticallyOrdered pf data))
   \<and> mset (alphabeticallyOrdered pf data) = mset data
   \<and> filter (\<lambda>sh. sortKey pf (show_name sh) = k) (alphabeticallyOrdered pf data)
       = filter (\<lambda>sh. sortKey pf (show_name sh) = k) data
   \<and> ((\<forall>s. sortKey pf (toLowerCase s) = sortKey pf s) \<longrightarrow>
        filter (\<lambda>sh. toLowerCase (show_name sh) = toLowerCase name) (alphabeticallyOrdered pf data)
          = filter (\<lambda>sh. toLowerCase (show_name sh) = toLowerCase name) data)
   \<and> map_option (tvShows \<circ> state)
       (run pf [PageLoaded, NetworkAnswer showsUrl (Response True (Some (ShowsJson data)))]
          initialWorld) = Some (alphabeticallyOrdered pf data)
   \<and> map show_name (alphabeticallyOrdered sampleBrowser sampleShows) = [''alpha'', ''Beta'', ''Zeta'']"
proof (intro conjI impI)
  let ?key = "\<lambda>sh. sortKey pf (show_name sh)"
  have eq: "alphabeticallyOrdered pf data = sort_key ?key data"
    by (rule alphabeticallyOrdered_sort_key)
  have "sorted (map ?key (sort_key ?key data))" by (rule sorted_sort_key)
  then show "sorted (map (sortKey pf \<circ> show_name) (alphabeticallyOrdered pf data))"
    by (simp add: eq comp_def)
  show "mset (alphabeticallyOrdered pf data) = mset data"
    by (simp add: eq)
  show stable: "filter (\<lambda>sh. sortKey pf (show_name sh) = k) (alphabeticallyOrdered pf data)
       = filter (\<lambda>sh. sortKey pf (show_name sh) = k) data" for k
    unfolding eq by (rule sort_key_stable)
  show "filter (\<lambda>sh. toLowerCase (show_name sh) = toLowerCase name) (alphabeticallyOrdered pf data)
          = filter (\<lambda>sh. toLowerCase (show_name sh) = toLowerCase name) data"
    if fold: "\<forall>s. sortKey pf (toLowerCase s) = sortKey pf s"
  proof -
    let ?P = "\<lambda>sh. sortKey pf (show_name sh) = sortKey pf name"
    let ?Q = "\<lambda>sh. toLowerCase (show_name sh) = toLowerCase name"
    have imp: "?Q sh \<Longrightarrow> ?P sh" for sh
      using fold by metis
    have split: "filter ?Q xs = filter ?Q (filter ?P xs)" for xs
      using imp by (auto intro: filter_cong)
    have "filter ?Q (alphabeticallyOrdered pf data) = filter ?Q (filter ?P (alphabeticallyOrdered pf data))"
      by (rule split)
    also have "\<dots> = filter ?Q (filter ?P data)" by (simp only: stable)
    also have "\<dots> = filter ?Q data" by (rule split [symmetric])
    finally show ?thesis .
  qed
  show "map_option (tvShows \<circ> state)
       (run pf [PageLoaded, NetworkAnswer showsUrl (Response True (Some (ShowsJson data)))]
          initialWorld) = Some (alphabeticallyOrdered pf data)"
    by (simp add: session_eval)
  show "map show_name (alphabeticallyOrdered sampleBrowser sampleShows) = [''alpha'', ''Beta'', ''Zeta'']"
    by (simp add: alphabeticallyOrdered_def sort_js_def localeCompare_def sampleBrowser_def
        sampleShows_def mkShow_def toLowerCase_def toLowerChar_def)
qed

theorem shows_ordered_by_name_witness:
  "(\<forall>s. sortKey sampleBrowser (toLowerCase s) = sortKey sampleBrowser s)
   \<and> map show_id (filter (\<lambda>sh. toLowerCase (show_name sh) = toLowerCase ''Beta'')
        (alphabeticallyOrdered sampleBrowser caseShows)) = [1, 3]"
proof -
  have f: "\<forall>s. sortKey sampleBrowser (toLowerCase s) = sortKey sampleBrowser s"
    by (simp add: sampleBrowser_def toLowerCase_idem)
  have "map show_id (filter (\<lambda>sh. toLowerCase (show_name sh) = toLowerCase ''Beta'') caseShows) = [1, 3]"
    by (simp add: caseShows_def mkShow_def toLowerCase_def toLowerChar_def)
  with f show ?thesis
    using shows_ordered_by_name [of sampleBrowser caseShows _ "''Beta''"] by simp
qed

section \<open>The gateway\<close>

lemma getJson_cached: "fetchCache g url = Some h \<Longrightarrow> getJson url g = (h, g)"
  by (simp add: getJson_def)

lemma getJson_new:
  "fetchCache g url = None \<Longrightarrow>
   getJson url g =
     (length (promises g),
      g\<lparr>fetchCache := (fetchCache g)(url \<mapsto> length (promises g)),
        promises := promises g @ [Pending],
        requests := requests g @ [url]\<rparr>)"
  by (simp add: getJson_def Let_def)

lemma settle_Some:
  "settle url r g = Some (h, g') \<Longrightarrow>
   fetchCache g url = Some h \<and> h < length (promises g) \<and> promises g ! h = Pending
   \<and> g' = g\<lparr>promises := (promises g)[h := requestOutcome r]\<rparr>"
  by (auto simp: settle_def promiseAt_def split: option.splits promise.splits if_splits)

lemma requested_once_empty: "requested_once emptyGateway"
  by (simp add: requested_once_def emptyGateway_def)

lemma getJson_requested_once: "requested_once g \<Longrightarrow> requested_once (snd (getJson url g))"
proof (cases "fetchCache g url")
  case None
  assume "requested_once g"
  with None show ?thesis
    by (auto simp: getJson_new requested_once_def)
next
  case (Some h)
  assume "requested_once g"
  with Some show ?thesis by (simp add: getJson_cached)
qed

lemma settle_requested_once:
  "settle url r g = Some (h, g') \<Longrightarrow> requested_once g \<Longrightarrow> requested_once g'"
  by (drule settle_Some) (auto simp: requested_once_def)

lemma gatewayStep_requested_once:
  "gatewayStep op g = Some g' \<Longrightarrow> requested_once g \<Longrightarrow> requested_once g'"
  by (cases op) (auto simp: getJson_requested_once settle_requested_once)

lemma gatewayRun_requested_once:
  "gatewayRun ops g = Some g' \<Longrightarrow> requested_once g \<Longrightarrow> requested_once g'"
proof (induction ops arbitrary: g)
  case Nil
  then show ?case by simp
next
  case (Cons op ops)
  then show ?case
    by (auto split: option.splits dest: gatewayStep_requested_once)
qed

lemma distinct_count_le_one: "distinct xs \<Longrightarrow> count_list xs x \<le> 1"
  by (induction xs) auto

lemma kept_refl: "kept g g"
  by (simp add: kept_def)

lemma kept_trans: "kept a b \<Longrightarrow> kept b c \<Longrightarrow> kept a c"
  by (simp add: kept_def)

lemma getJson_kept: "kept g (snd (getJson url g))"
proof (cases "fetchCache g url")
  case None
  then show ?thesis
    by (auto simp: getJson_new kept_def promiseAt_def nth_append)
next
  case (Some h)
  then show ?thesis by (simp add: getJson_cached kept_refl)
qed

lemma settle_kept: "settle url r g = Some (h, g') \<Longrightarrow> kept g g'"
  by (drule settle_Some) (auto simp: kept_def promiseAt_def nth_list_update)

lemma gatewayStep_kept: "gatewayStep op g = Some g' \<Longrightarrow> kept g g'"
  by (cases op) (auto simp: getJson_kept settle_kept)

lemma gatewayRun_kept: "gatewayRun ops g = Some g' \<Longrightarrow> kept g g'"
proof (induction ops arbitrary: g)
  case Nil
  then show ?case by (simp add: kept_refl)
next
  case (Cons op ops)
  then show ?case
    by (auto split: option.splits dest: gatewayStep_kept intro: kept_trans)
qed

lemma gatewayStep_no_retry:
  assumes "gatewayStep op g = Some g'" "fetchCache g url = Some h"
  shows "count_list (requests g') url = count_list (requests g) url"
proof (cases op)
  case (GetJson u)
  show ?thesis
  proof (cases "fetchCache g u")
    case None
    with assms(2) have "u \<noteq> url" by auto
    with None GetJson assms(1) show ?thesis by (auto simp: getJson_new)
  next
    case (Some k)
    with GetJson assms(1) show ?thesis by (auto simp: getJson_cached)
  qed
next
  case (Answer u r)
  with assms(1) show ?thesis by (auto dest: settle_Some)
qed

lemma gatewayRun_no_retry:
  "gatewayRun ops g = Some g' \<Longrightarrow> fetchCache g url = Some h \<Longrightarrow>
   count_list (requests g') url = count_list (requests g) url"
proof (induction ops arbitrary: g)
  case Nil
  then show ?case by simp
next
  case (Cons op ops)
  from Cons.prems(1) obtain g1 where
    s: "gatewayStep op g = Some g1" and r: "gatewayRun ops g1 = Some g'"
    by (auto split: option.splits)
  from gatewayStep_kept [OF s] Cons.prems(2) have "fetchCache g1 url = Some h"
    by (simp add: kept_def)
  from Cons.IH [OF r this] gatewayStep_no_retry [OF s Cons.prems(2)] show ?case by simp
qed

text \<open>
  Claim C10. In a session of the gateway every URL is requested from the network at most
  once. A new request is in the fetch cache, pending, when \<^verbatim>\<open>getJson\<close> returns. When
  the request fails, the cache entry holds the rejected promise, and whatever the
  gateway does later, \<^verbatim>\<open>getJson\<close> for this URL returns this same rejected promise and
  leaves the gateway as it is: the URL is not requested again.
\<close>

theorem failed_fetch_never_retried:
  "(gatewayRun ops emptyGateway = Some g \<longrightarrow> count_list (requests g) url \<le> 1)
   \<and> (fetchCache g url = None \<longrightarrow>
        fetchCache (snd (getJson url g)) url = Some (fst (getJson url g))
        \<and> promiseAt (snd (getJson url g)) (fst (getJson url g)) = Some Pending
        \<and> requests (snd (getJson url g)) = requests g @ [url])
   \<and> (settle url r g = Some (h, g1) \<and> requestOutcome r = Rejected
        \<and> gatewayRun later g1 = Some g2 \<longrightarrow>
        fetchCache g1 url = Some h \<and> promiseAt g1 h = Some Rejected
        \<and> getJson url g2 = (h, g2) \<and> promiseAt g2 h = Some Rejected
        \<and> count_list (requests g2) url = count_list (requests g1) url)"
proof (intro conjI impI)
  assume "gatewayRun ops emptyGateway = Some g"
  then have "requested_once g"
    using requested_once_empty by (rule gatewayRun_requested_once)
  then have "distinct (requests g)" by (simp add: requested_once_def)
  then show "count_list (requests g) url \<le> 1" by (rule distinct_count_le_one)
next
  assume n: "fetchCache g url = None"
  show "fetchCache (snd (getJson url g)) url = Some (fst (getJson url g))"
    by (simp add: getJson_new [OF n])
  show "promiseAt (snd (getJson url g)) (fst (getJson url g)) = Some Pending"
    by (simp add: getJson_new [OF n] promiseAt_def)
  show "requests (snd (getJson url g)) = requests g @ [url]"
    by (simp add: getJson_new [OF n])
next
  assume a: "settle url r g = Some (h, g1) \<and> requestOutcome r = Rejected
    \<and> gatewayRun later g1 = Some g2"
  then have s: "settle url r g = Some (h, g1)" and rej: "requestOutcome r = Rejected"
    and later: "gatewayRun later g1 = Some g2" by simp_all
  from settle_Some [OF s] show c1: "fetchCache g1 url = Some h" by simp
  from settle_Some [OF s] rej show p1: "promiseAt g1 h = Some Rejected"
    by (simp add: promiseAt_def)
  from later have k: "kept g1 g2" by (rule gatewayRun_kept)
  with c1 have "fetchCache g2 url = Some h" by (simp add: kept_def)
  then show "getJson url g2 = (h, g2)" by (rule getJson_cached)
  from k p1 show "promiseAt g2 h = Some Rejected" by (auto simp: kept_def)
  from later c1 show "count_list (requests g2) url = count_list (requests g1) url"
    by (rule gatewayRun_no_retry)
qed

theorem failed_fetch_never_retried_witness:
  "gatewayRun [GetJson (episodesUrl 11), Answer (episodesUrl 11) NetworkError] emptyGateway
     = Some failedGateway
   \<and> fetchCache (emptyGateway :: json gateway) (episodesUrl 11) = None
   \<and> settle (episodesUrl 11) NetworkError pendingGateway = Some (0, failedGateway)
   \<and> requestOutcome (NetworkError :: json response) = Rejected
   \<and> gatewayRun [GetJson (episodesUrl 11), GetJson showsUrl, GetJson (episodesUrl 11)]
        failedGateway = Some laterGateway
   \<and> count_list (requests failedGateway) (episodesUrl 11) \<le> 1
   \<and> promiseAt pendingGateway 0 = Some Pending
   \<and> getJson (episodesUrl 11) laterGateway = (0, laterGateway)
   \<and> promiseAt laterGateway 0 = Some Rejected
   \<and> count_list (requests laterGateway) (episodesUrl 11)
       = count_list (requests failedGateway) (episodesUrl 11)"
proof -
  have a: "gatewayRun [GetJson (episodesUrl 11), Answer (episodesUrl 11) NetworkError] emptyGateway
     = Some failedGateway"
    by (simp add: gateway_eval)
  have b: "fetchCache (emptyGateway :: json gateway) (episodesUrl 11) = None"
    by (simp add: emptyGateway_def)
  have c: "settle (episodesUrl 11) NetworkError pendingGateway = Some (0, failedGateway)"
    by (simp add: gateway_eval)
  have d: "requestOutcome (NetworkError :: json response) = Rejected"
    by (simp add: requestOutcome_def)
  have e: "gatewayRun [GetJson (episodesUrl 11), GetJson showsUrl, GetJson (episodesUrl 11)]
        failedGateway = Some laterGateway"
    by (simp add: gateway_eval)
  have f: "fst (getJson (episodesUrl 11) (emptyGateway :: json gateway)) = 0"
    "snd (getJson (episodesUrl 11) (emptyGateway :: json gateway)) = pendingGateway"
    by (simp_all add: gateway_eval)
  from failed_fetch_never_retried
    [of "[GetJson (episodesUrl 11), Answer (episodesUrl 11) NetworkError]" failedGateway
      "episodesUrl 11"]
  have g: "count_list (requests failedGateway) (episodesUrl 11) \<le> 1"
    using a by blast
  from failed_fetch_never_retried
    [of "[]" "emptyGateway :: json gateway" "episodesUrl 11" NetworkError 0 emptyGateway "[]"
      emptyGateway] b
  have "promiseAt (snd (getJson (episodesUrl 11) (emptyGateway :: json gateway)))
      (fst (getJson (episodesUrl 11) (emptyGateway :: json gateway))) = Some Pending"
    by blast
  then have h: "promiseAt pendingGateway 0 = Some Pending"
    by (simp only: f)
  from failed_fetch_never_retried
    [of "[]" pendingGateway "episodesUrl 11" NetworkError 0 failedGateway
      "[GetJson (episodesUrl 11), GetJson showsUrl, GetJson (episodesUrl 11)]" laterGateway]
    c d e
  have i: "getJson (episodesUrl 11) laterGateway = (0, laterGateway)
     \<and> promiseAt laterGateway 0 = Some Rejected
     \<and> count_list (requests laterGateway) (episodesUrl 11)
         = count_list (requests failedGateway) (episodesUrl 11)"
    by blast
  from a b c d e g h i show ?thesis by blast
qed

text \<open>
  Claim C6, amended. \<^verbatim>\<open>getJson\<close> collapses all requests of one URL in a session, not only
  those in flight: a URL that is in the fetch cache gets the stored promise and causes no
  call of the network, so two calls in a row share one promise; and when the network
  answers, the entry stays in the cache with the settled result, which later calls
  receive.
\<close>

theorem fetch_cache_keeps_results:
  "(fetchCache g url = Some h \<longrightarrow> getJson url g = (h, g))
   \<and> fst (getJson url (snd (getJson url g))) = fst (getJson url g)
   \<and> snd (getJson url (snd (getJson url g))) = snd (getJson url g)
   \<and> (settle url r g = Some (h, g1) \<longrightarrow>
        fetchCache g1 = fetchCache g \<and> promiseAt g1 h = Some (requestOutcome r)
        \<and> requests g1 = requests g \<and> getJson url g1 = (h, g1))"
proof (intro conjI impI)
  show "getJson url g = (h, g)" if "fetchCache g url = Some h"
    using that by (rule getJson_cached)
  have again: "fetchCache (snd (getJson url g)) url = Some (fst (getJson url g))"
    by (cases "fetchCache g url") (simp_all add: getJson_new getJson_cached)
  show "fst (getJson url (snd (getJson url g))) = fst (getJson url g)"
    by (simp add: getJson_cached [OF again])
  show "snd (getJson url (snd (getJson url g))) = snd (getJson url g)"
    by (simp add: getJson_cached [OF again])
next
  assume a: "settle url r g = Some (h, g1)"
  note s = settle_Some [OF a]
  from s show "fetchCache g1 = fetchCache g" by simp
  from s show "promiseAt g1 h = Some (requestOutcome r)" by (simp add: promiseAt_def)
  from s show "requests g1 = requests g" by simp
  from s have "fetchCache g1 url = Some h" by simp
  then show "getJson url g1 = (h, g1)" by (rule getJson_cached)
qed

theorem fetch_cache_keeps_results_witness:
  "fetchCache pendingGateway (episodesUrl 11) = Some 0
   \<and> getJson (episodesUrl 11) pendingGateway = (0, pendingGateway)
   \<and> settle (episodesUrl 11) NetworkError pendingGateway = Some (0, failedGateway)
   \<and> fetchCache failedGateway = fetchCache pendingGateway
   \<and> getJson (episodesUrl 11) failedGateway = (0, failedGateway)"
proof -
  have a: "fetchCache pendingGateway (episodesUrl 11) = Some 0"
    by (simp add: gateway_eval)
  have c: "settle (episodesUrl 11) NetworkError pendingGateway = Some (0, failedGateway)"
    by (simp add: gateway_eval)
  from a c
    fetch_cache_keeps_results [of pendingGateway "episodesUrl 11" 0 NetworkError failedGateway]
  show ?thesis by blast
qed

text \<open>
  Claim C6 as stated fails: after the request for the episodes of show 10 has completed,
  a second \<^verbatim>\<open>getJson\<close> for the same URL causes no second call of the network, because
  the fulfilled promise is still in the cache.
\<close>

theorem gateway_cache_counterexample:
  "map_option requests
     (gatewayRun
        [GetJson (episodesUrl 10),
         Answer (episodesUrl 10) (Response True (Some sampleEpisodes)),
         GetJson (episodesUrl 10)]
        emptyGateway) = Some [episodesUrl 10]
   \<and> map_option promises
     (gatewayRun
        [GetJson (episodesUrl 10),
         Answer (episodesUrl 10) (Response True (Some sampleEpisodes)),
         GetJson (episodesUrl 10)]
        emptyGateway) = Some [Fulfilled sampleEpisodes]"
  by (simp add: getJson_def settle_def promiseAt_def requestOutcome_def emptyGateway_def Let_def)

section \<open>Sessions of the application\<close>

lemma renderStatus_fields [simp]:
  "state (renderStatus w) = state w" "net (renderStatus w) = net w"
  "awaiting (renderStatus w) = awaiting w" "listening (renderStatus w) = listening w"
  by (simp_all add: renderStatus_def)

lemma render_fields [simp]:
  "state (render pf w) = state w" "net (render pf w) = net w"
  "awaiting (render pf w) = awaiting w" "listening (render pf w) = listening w"
  by (simp_all add: render_def renderShowsView_def renderEpisodesView_def Let_def)

lemma resume_fields:
  "resume pf t outcome w = Some w' \<Longrightarrow>
   net w' = net w \<and> awaiting w' = awaiting w \<and> listening w' = listening w"
  by (induction pf t outcome w rule: resume.induct) auto

lemma resumeAll_fields:
  "resumeAll pf ts outcome w = Some w' \<Longrightarrow>
   net w' = net w \<and> awaiting w' = awaiting w \<and> listening w' = listening w"
proof (induction ts arbitrary: w)
  case Nil
  then show ?case by simp
next
  case (Cons t ts)
  then show ?case
    by (auto split: option.splits dest!: resume_fields)
qed

lemma world_ok_initial: "world_ok initialWorld"
  by (simp add: world_ok_def initialWorld_def requested_once_empty)

lemma getJson_length: "length (promises g) \<le> length (promises (snd (getJson url g)))"
  by (cases "fetchCache g url") (simp_all add: getJson_new getJson_cached)

lemma await_ok:
  assumes "await pf request t w = Some w'" "world_ok w"
  shows "world_ok w'"
proof (cases "promiseAt (net w) request")
  case None
  with assms show ?thesis by (simp add: await_def)
next
  case (Some p)
  show ?thesis
  proof (cases p)
    case Pending
    with Some assms show ?thesis
      by (auto simp: await_def world_ok_def promiseAt_def split: if_splits)
  next
    case (Fulfilled v)
    with Some assms have "resume pf t (Fulfilled v) w = Some w'" by (simp add: await_def)
    from resume_fields [OF this] assms(2) show ?thesis by (simp add: world_ok_def)
  next
    case Rejected
    with Some assms have "resume pf t Rejected w = Some w'" by (simp add: await_def)
    from resume_fields [OF this] assms(2) show ?thesis by (simp add: world_ok_def)
  qed
qed

lemma getJson_ok:
  assumes "world_ok w" "net w' = snd (getJson url (net w))" "awaiting w' = awaiting w"
  shows "world_ok w'"
proof -
  have "length (promises (net w)) \<le> length (promises (net w'))"
    using assms(2) getJson_length [of "net w" url] by simp
  with assms show ?thesis
    by (auto simp: world_ok_def getJson_requested_once list_all_iff)
qed

lemma setupApp_ok:
  assumes "setupApp pf w = Some w'" "world_ok w"
  shows "world_ok w'"
proof -
  obtain request g where gj: "getJson showsUrl (net w) = (request, g)"
    by (cases "getJson showsUrl (net w)")
  define w2 where
    "w2 = (renderStatus (w\<lparr>state := (state w)\<lparr>status := Loading\<rparr>\<rparr>))\<lparr>listening := True, net := g\<rparr>"
  have "await pf request SetupAwaitsShows w2 = Some w'"
    using assms(1) by (simp add: setupApp_def Let_def gj w2_def)
  moreover have "world_ok w2"
    by (rule getJson_ok [OF assms(2), where url = showsUrl]) (simp_all add: w2_def gj)
  ultimately show ?thesis by (rule await_ok)
qed

lemma openShow_ok:
  assumes "openShow pf n w = Some w'" "world_ok w"
  shows "world_ok w'"
proof (cases "episodesByShowId (state w) (String_js n)")
  case (Some cached)
  with assms show ?thesis by (auto simp: openShow_def Let_def world_ok_def)
next
  case None
  obtain request g where gj: "getJson (episodesUrl n) (net w) = (request, g)"
    by (cases "getJson (episodesUrl n) (net w)")
  define w2 where
    "w2 = (renderStatus
             (w\<lparr>state := (state w)\<lparr>selectedShowId := String_js n, currentView := EpisodesView,
                                    selectedEpisodeId := [], episodeSearchText := [],
                                    status := Loading\<rparr>\<rparr>))\<lparr>net := g\<rparr>"
  have "await pf request (OpenShowAwaitsEpisodes n) w2 = Some w'"
    using assms(1) None by (simp add: openShow_def Let_def fetchEpisodes_def gj w2_def)
  moreover have "world_ok w2"
    by (rule getJson_ok [OF assms(2), where url = "episodesUrl n"]) (simp_all add: w2_def gj)
  ultimately show ?thesis by (rule await_ok)
qed

lemma transportDone_ok:
  assumes "transportDone pf url r w = Some w'" "world_ok w"
  shows "world_ok w'"
proof -
  from assms(1) obtain request g where
    s: "settle url r (net w) = Some (request, g)" and
    ra: "resumeAll pf (map snd (filter (\<lambda>a. fst a = request) (awaiting w))) (requestOutcome r)
           (w\<lparr>net := g, awaiting := filter (\<lambda>a. fst a \<noteq> request) (awaiting w)\<rparr>) = Some w'"
    by (auto simp: transportDone_def split: option.splits)
  from settle_Some [OF s] have len: "length (promises g) = length (promises (net w))"
    by auto
  have "requested_once g"
    using s assms(2) by (auto simp: world_ok_def dest: settle_requested_once)
  with resumeAll_fields [OF ra] len assms(2) show ?thesis
    by (auto simp: world_ok_def list_all_iff)
qed

lemma step_ok: "step pf ev w = Some w' \<Longrightarrow> world_ok w \<Longrightarrow> world_ok w'"
proof (cases ev)
  case PageLoaded
  assume "step pf ev w = Some w'" "world_ok w"
  with PageLoaded show ?thesis by (auto split: if_splits dest: setupApp_ok)
next
  case (OpenShow n)
  assume "step pf ev w = Some w'" "world_ok w"
  with OpenShow show ?thesis by (auto split: if_splits dest: openShow_ok)
next
  case (NetworkAnswer url r)
  assume "step pf ev w = Some w'" "world_ok w"
  with NetworkAnswer show ?thesis by (auto dest: transportDone_ok)
qed (auto simp: world_ok_def showSearchDidChange_def episodeSelectionDidChange_def
      episodeSearchDidChange_def backToShows_def split: if_splits)

lemma run_ok: "run pf evs w = Some w' \<Longrightarrow> world_ok w \<Longrightarrow> world_ok w'"
proof (induction evs arbitrary: w)
  case Nil
  then show ?case by simp
next
  case (Cons ev evs)
  then show ?case by (auto split: option.splits dest: step_ok)
qed

lemma filterEpisodes_all: "filterEpisodes pf eps [] [] = eps"
  by (simp add: filterEpisodes_def toLowerCase_def trim_def)

lemma openShow_cached:
  assumes "episodesByShowId (state w) (String_js n) = Some eps"
  shows "\<exists>w'. openShow pf n w = Some w' \<and> net w' = net w \<and> awaiting w' = awaiting w
           \<and> episodesByShowId (state w') = episodesByShowId (state w)
           \<and> (status (state w) = Loaded \<longrightarrow> (\<exists>heading. root w' = EpisodePage heading eps))"
  using assms
  by (auto simp: openShow_def Let_def render_def renderEpisodesView_def String_js_not_Nil
      orEmpty_def filterEpisodes_all)

lemma openShow_first:
  assumes "world_ok w" "fetchCache (net w) (episodesUrl n) = None"
    "episodesByShowId (state w) (String_js n) = None"
  shows "\<exists>w1 w2. openShow pf n w = Some w1
           \<and> requests (net w1) = requests (net w) @ [episodesUrl n]
           \<and> transportDone pf (episodesUrl n) (Response True (Some (EpisodesJson eps))) w1 = Some w2
           \<and> episodesByShowId (state w2) (String_js n) = Some eps
           \<and> requests (net w2) = requests (net w1)"
proof -
  let ?h = "length (promises (net w))"
  let ?t = "OpenShowAwaitsEpisodes n"
  have old: "filter (\<lambda>a. fst a = ?h) (awaiting w) = []"
    using assms(1) by (auto simp: world_ok_def list_all_iff filter_empty_conv)
  show ?thesis
    using assms(2,3) old
    by (simp add: openShow_def Let_def fetchEpisodes_def getJson_new await_def promiseAt_def
        transportDone_def settle_def requestOutcome_def nth_append)
qed

lemma episodesUrl_inj: "episodesUrl a = episodesUrl b \<Longrightarrow> a = b"
  by (simp add: episodesUrl_def String_js_inj)

lemma showsUrl_not_episodesUrl: "showsUrl \<noteq> episodesUrl n"
  by (simp add: showsUrl_def episodesUrl_def)

lemma traces_opened_initial: "traces_opened {} initialWorld"
  by (simp add: traces_opened_def initialWorld_def initialState_def emptyGateway_def)

lemma traces_opened_mono: "traces_opened S w \<Longrightarrow> S \<subseteq> T \<Longrightarrow> traces_opened T w"
  unfolding traces_opened_def by blast

lemma traces_opened_upd:
  assumes "traces_opened S w"
    and "\<And>url h. fetchCache (net w') url = Some h \<Longrightarrow>
           fetchCache (net w) url = Some h \<or> url = showsUrl \<or> url \<in> episodesUrl ` S"
    and "\<And>k eps. episodesByShowId (state w') k = Some eps \<Longrightarrow>
           episodesByShowId (state w) k = Some eps \<or> k \<in> String_js ` S"
    and "\<And>a m. a \<in> set (awaiting w') \<Longrightarrow> snd a = OpenShowAwaitsEpisodes m \<Longrightarrow>
           a \<in> set (awaiting w) \<or> m \<in> S"
  shows "traces_opened S w'"
  unfolding traces_opened_def
proof (intro conjI allI impI ballI)
  fix url h assume "fetchCache (net w') url = Some h"
  from assms(2) [OF this] assms(1) show "url = showsUrl \<or> url \<in> episodesUrl ` S"
    unfolding traces_opened_def by blast
next
  fix k eps assume "episodesByShowId (state w') k = Some eps"
  from assms(3) [OF this] assms(1) show "k \<in> String_js ` S"
    unfolding traces_opened_def by blast
next
  fix a m assume "a \<in> set (awaiting w')" "snd a = OpenShowAwaitsEpisodes m"
  from assms(4) [OF this] this(2) assms(1) show "m \<in> S"
    unfolding traces_opened_def by blast
qed

lemma resume_traces:
  assumes "resume pf t outcome w = Some w'" "traces_opened S w"
    "\<And>m. t = OpenShowAwaitsEpisodes m \<Longrightarrow> m \<in> S"
  shows "traces_opened S w'"
proof (rule traces_opened_upd [OF assms(2)])
  fix url h assume "fetchCache (net w') url = Some h"
  with resume_fields [OF assms(1)]
  show "fetchCache (net w) url = Some h \<or> url = showsUrl \<or> url \<in> episodesUrl ` S"
    by simp
next
  fix a m assume "a \<in> set (awaiting w')" "snd a = OpenShowAwaitsEpisodes m"
  with resume_fields [OF assms(1)] show "a \<in> set (awaiting w) \<or> m \<in> S" by simp
next
  fix k eps assume "episodesByShowId (state w') k = Some eps"
  with assms(1,3) show "episodesByShowId (state w) k = Some eps \<or> k \<in> String_js ` S"
    by (induction pf t outcome w rule: resume.induct) (auto split: if_splits)
qed

lemma resumeAll_traces:
  assumes "resumeAll pf ts outcome w = Some w'" "traces_opened S w"
    "\<And>m. OpenShowAwaitsEpisodes m \<in> set ts \<Longrightarrow> m \<in> S"
  shows "traces_opened S w'"
  using assms
proof (induction ts arbitrary: w)
  case Nil
  then show ?case by simp
next
  case (Cons t ts)
  from Cons.prems(1) obtain w1 where
    r: "resume pf t outcome w = Some w1" and ra: "resumeAll pf ts outcome w1 = Some w'"
    by (auto split: option.splits)
  have "traces_opened S w1"
    using r Cons.prems(2) by (rule resume_traces) (simp add: Cons.prems(3))
  with ra show ?case
    by (rule Cons.IH) (simp add: Cons.prems(3))
qed

lemma await_traces:
  assumes "await pf request t w = Some w'" "traces_opened S w"
    "\<And>m. t = OpenShowAwaitsEpisodes m \<Longrightarrow> m \<in> S"
  shows "traces_opened S w'"
proof (cases "promiseAt (net w) request")
  case None
  with assms(1) show ?thesis by (simp add: await_def)
next
  case (Some p)
  show ?thesis
  proof (cases "p = Pending")
    case True
    with Some assms(1) have "w' = w\<lparr>awaiting := awaiting w @ [(request, t)]\<rparr>"
      by (simp add: await_def)
    then show ?thesis
      by (intro traces_opened_upd [OF assms(2)]) (auto dest: assms(3))
  next
    case False
    with Some assms(1) have "resume pf t p w = Some w'"
      by (cases p) (simp_all add: await_def)
    then show ?thesis using assms(2,3) by (rule resume_traces)
  qed
qed

lemma getJson_dom:
  "fetchCache (snd (getJson url g)) u = Some h \<Longrightarrow> u = url \<or> fetchCache g u = Some h"
  by (cases "fetchCache g url") (auto simp: getJson_new getJson_cached split: if_splits)

lemma setupApp_traces:
  assumes "setupApp pf w = Some w'" "traces_opened S w"
  shows "traces_opened S w'"
proof -
  obtain request g where gj: "getJson showsUrl (net w) = (request, g)"
    by (cases "getJson showsUrl (net w)")
  define w2 where
    "w2 = (renderStatus (w\<lparr>state := (state w)\<lparr>status := Loading\<rparr>\<rparr>))\<lparr>listening := True, net := g\<rparr>"
  have a: "await pf request SetupAwaitsShows w2 = Some w'"
    using assms(1) by (simp add: setupApp_def Let_def gj w2_def)
  have "traces_opened S w2"
    using getJson_dom [of showsUrl "net w"]
    by (intro traces_opened_upd [OF assms(2)]) (auto simp: w2_def gj)
  with a show ?thesis by (rule await_traces) simp
qed

lemma openShow_traces:
  assumes "openShow pf n w = Some w'" "traces_opened S w"
  shows "traces_opened (insert n S) w'"
proof (cases "episodesByShowId (state w) (String_js n)")
  case (Some cached)
  with assms(1) have "w' = render pf
      (w\<lparr>state := (state w)\<lparr>selectedShowId := String_js n, currentView := EpisodesView,
                             selectedEpisodeId := [], episodeSearchText := []\<rparr>\<rparr>)"
    by (simp add: openShow_def Let_def)
  then have "traces_opened S w'"
    by (intro traces_opened_upd [OF assms(2)]) auto
  then show ?thesis by (rule traces_opened_mono) blast
next
  case None
  obtain request g where gj: "getJson (episodesUrl n) (net w) = (request, g)"
    by (cases "getJson (episodesUrl n) (net w)")
  define w2 where
    "w2 = (renderStatus
             (w\<lparr>state := (state w)\<lparr>selectedShowId := String_js n, currentView := EpisodesView,
                                    selectedEpisodeId := [], episodeSearchText := [],
                                    status := Loading\<rparr>\<rparr>))\<lparr>net := g\<rparr>"
  have a: "await pf request (OpenShowAwaitsEpisodes n) w2 = Some w'"
    using assms(1) None by (simp add: openShow_def Let_def fetchEpisodes_def gj w2_def)
  have wide: "traces_opened (insert n S) w"
    using assms(2) by (rule traces_opened_mono) blast
  have "traces_opened (insert n S) w2"
    using getJson_dom [of "episodesUrl n" "net w"]
    by (intro traces_opened_upd [OF wide]) (auto simp: w2_def gj)
  with a show ?thesis by (rule await_traces) simp
qed

lemma transportDone_traces:
  assumes "transportDone pf url r w = Some w'" "traces_opened S w"
  shows "traces_opened S w'"
proof -
  from assms(1) obtain request g where
    s: "settle url r (net w) = Some (request, g)" and
    ra: "resumeAll pf (map snd (filter (\<lambda>a. fst a = request) (awaiting w))) (requestOutcome r)
           (w\<lparr>net := g, awaiting := filter (\<lambda>a. fst a \<noteq> request) (awaiting w)\<rparr>) = Some w'"
    by (auto simp: transportDone_def split: option.splits)
  have "traces_opened S (w\<lparr>net := g, awaiting := filter (\<lambda>a. fst a \<noteq> request) (awaiting w)\<rparr>)"
    using settle_Some [OF s] by (intro traces_opened_upd [OF assms(2)]) auto
  with ra show ?thesis
  proof (rule resumeAll_traces)
    fix m
    assume "OpenShowAwaitsEpisodes m \<in> set (map snd (filter (\<lambda>a. fst a = request) (awaiting w)))"
    then obtain a where "a \<in> set (awaiting w)" "snd a = OpenShowAwaitsEpisodes m" by auto
    with assms(2) show "m \<in> S" unfolding traces_opened_def by blast
  qed
qed

lemma step_traces:
  assumes "step pf ev w = Some w'" "traces_opened S w"
  shows "traces_opened (S \<union> openedBy ev) w'"
proof (cases ev)
  case PageLoaded
  with assms show ?thesis by (auto split: if_splits dest: setupApp_traces)
next
  case (OpenShow n)
  with assms show ?thesis by (auto split: if_splits dest: openShow_traces)
next
  case (NetworkAnswer url r)
  with assms show ?thesis by (auto dest: transportDone_traces)
next
  case (ShowSearchInput v)
  with assms(1) have "w' = showSearchDidChange pf v w" by (simp split: if_splits)
  then have "traces_opened S w'"
    by (intro traces_opened_upd [OF assms(2)]) (auto simp: showSearchDidChange_def)
  with ShowSearchInput show ?thesis by simp
next
  case (EpisodeSelectChange v)
  with assms(1) have "w' = episodeSelectionDidChange pf v w" by (simp split: if_splits)
  then have "traces_opened S w'"
    by (intro traces_opened_upd [OF assms(2)]) (auto simp: episodeSelectionDidChange_def)
  with EpisodeSelectChange show ?thesis by simp
next
  case (EpisodeSearchInput v)
  with assms(1) have "w' = episodeSearchDidChange pf v w" by (simp split: if_splits)
  then have "traces_opened S w'"
    by (intro traces_opened_upd [OF assms(2)]) (auto simp: episodeSearchDidChange_def)
  with EpisodeSearchInput show ?thesis by simp
next
  case BackClick
  with assms(1) have "w' = backToShows pf w" by (simp split: if_splits)
  then have "traces_opened S w'"
    by (intro traces_opened_upd [OF assms(2)]) (auto simp: backToShows_def)
  with BackClick show ?thesis by simp
qed

lemma run_traces:
  "run pf evs w = Some w' \<Longrightarrow> traces_opened S w \<Longrightarrow>
   traces_opened (S \<union> \<Union> (openedBy ` set evs)) w'"
proof (induction evs arbitrary: w S)
  case Nil
  then show ?case by simp
next
  case (Cons ev evs)
  from Cons.prems(1) obtain w1 where
    s: "step pf ev w = Some w1" and r: "run pf evs w1 = Some w'"
    by (auto split: option.splits)
  from step_traces [OF s Cons.prems(2)] have "traces_opened (S \<union> openedBy ev) w1" .
  from Cons.IH [OF r this] show ?case by (simp add: Un_assoc)
qed

lemma never_opened:
  assumes "run pf evs initialWorld = Some w" "OpenShow n \<notin> set evs"
  shows "fetchCache (net w) (episodesUrl n) = None \<and> episodesByShowId (state w) (String_js n) = None"
proof -
  have notin: "n \<notin> \<Union> (openedBy ` set evs)"
  proof
    assume "n \<in> \<Union> (openedBy ` set evs)"
    then obtain ev where "ev \<in> set evs" "n \<in> openedBy ev" by blast
    with assms(2) show False by (cases ev) auto
  qed
  from run_traces [OF assms(1) traces_opened_initial]
  have t: "traces_opened (\<Union> (openedBy ` set evs)) w" by simp
  have "fetchCache (net w) (episodesUrl n) = None"
  proof (rule ccontr)
    assume "fetchCache (net w) (episodesUrl n) \<noteq> None"
    then obtain h where "fetchCache (net w) (episodesUrl n) = Some h" by blast
    with t have "episodesUrl n = showsUrl \<or> episodesUrl n \<in> episodesUrl ` \<Union> (openedBy ` set evs)"
      unfolding traces_opened_def by blast
    with notin show False
      using showsUrl_not_episodesUrl [of n] episodesUrl_inj by auto
  qed
  moreover have "episodesByShowId (state w) (String_js n) = None"
  proof (rule ccontr)
    assume "episodesByShowId (state w) (String_js n) \<noteq> None"
    then obtain eps where "episodesByShowId (state w) (String_js n) = Some eps" by blast
    with t have "String_js n \<in> String_js ` \<Union> (openedBy ` set evs)"
      unfolding traces_opened_def by blast
    with notin show False using String_js_inj by auto
  qed
  ultimately show ?thesis by simp
qed

text \<open>
  Claim C1. In every session, whatever the events and their order, the episodes of a
  show are requested from the network at most once, and not at all before the show is
  opened. The first \<^verbatim>\<open>openShow\<close> for a show sends the one request, and the answer is
  stored under the show's id. An \<^verbatim>\<open>openShow\<close> for a show whose episodes are stored leaves
  the gateway untouched and, when the application is loaded, shows the stored episodes.
\<close>

theorem open_show_fetches_once:
  assumes "run pf evs initialWorld = Some w"
  shows "count_list (requests (net w)) (episodesUrl n) \<le> 1
    \<and> (OpenShow n \<notin> set evs \<longrightarrow> count_list (requests (net w)) (episodesUrl n) = 0)
    \<and> (OpenShow n \<notin> set evs \<and> listening w \<longrightarrow>
         (\<exists>w1 w2. step pf (OpenShow n) w = Some w1
            \<and> requests (net w1) = requests (net w) @ [episodesUrl n]
            \<and> step pf (NetworkAnswer (episodesUrl n) (Response True (Some (EpisodesJson eps)))) w1
                = Some w2
            \<and> episodesByShowId (state w2) (String_js n) = Some eps
            \<and> requests (net w2) = requests (net w1)))
    \<and> (episodesByShowId (state w) (String_js n) = Some eps \<and> listening w \<longrightarrow>
         (\<exists>w'. step pf (OpenShow n) w = Some w'
            \<and> net w' = net w \<and> awaiting w' = awaiting w
            \<and> episodesByShowId (state w') = episodesByShowId (state w)
            \<and> (status (state w) = Loaded \<longrightarrow> (\<exists>heading. root w' = EpisodePage heading eps))))"
proof (intro conjI impI)
  have ok: "world_ok w"
    using assms world_ok_initial by (rule run_ok)
  then have once: "requested_once (net w)" by (simp add: world_ok_def)
  then have "distinct (requests (net w))" by (simp add: requested_once_def)
  then show "count_list (requests (net w)) (episodesUrl n) \<le> 1"
    by (rule distinct_count_le_one)
  show "count_list (requests (net w)) (episodesUrl n) = 0" if "OpenShow n \<notin> set evs"
  proof -
    from never_opened [OF assms that] have "fetchCache (net w) (episodesUrl n) = None" by simp
    with once have "episodesUrl n \<notin> set (requests (net w))"
      by (auto simp: requested_once_def)
    then show ?thesis by (simp add: count_list_0_iff)
  qed
  show "\<exists>w1 w2. step pf (OpenShow n) w = Some w1
            \<and> requests (net w1) = requests (net w) @ [episodesUrl n]
            \<and> step pf (NetworkAnswer (episodesUrl n) (Response True (Some (EpisodesJson eps)))) w1
                = Some w2
            \<and> episodesByShowId (state w2) (String_js n) = Some eps
            \<and> requests (net w2) = requests (net w1)"
    if "OpenShow n \<notin> set evs \<and> listening w"
  proof -
    from that never_opened [OF assms, of n]
    have "fetchCache (net w) (episodesUrl n) = None"
      "episodesByShowId (state w) (String_js n) = None" by simp_all
    from openShow_first [OF ok this, of pf eps] that show ?thesis by simp
  qed
  show "\<exists>w'. step pf (OpenShow n) w = Some w'
            \<and> net w' = net w \<and> awaiting w' = awaiting w
            \<and> episodesByShowId (state w') = episodesByShowId (state w)
            \<and> (status (state w) = Loaded \<longrightarrow> (\<exists>heading. root w' = EpisodePage heading eps))"
    if "episodesByShowId (state w) (String_js n) = Some eps \<and> listening w"
    using that openShow_cached [of w n eps pf] by simp
qed

lemma sampleWorld_run: "run sampleBrowser sampleStart initialWorld = Some sampleWorld"
  by (simp add: sampleWorld_def session_eval)

theorem open_show_fetches_once_witness:
  "run sampleBrowser sampleStart initialWorld = Some sampleWorld
   \<and> listening sampleWorld
   \<and> episodesByShowId (state sampleWorld) (String_js 10) = Some sampleEpisodes
   \<and> OpenShow 11 \<notin> set sampleStart
   \<and> status (state sampleWorld) = Loaded
   \<and> count_list (requests (net sampleWorld)) (episodesUrl 10) \<le> 1
   \<and> count_list (requests (net sampleWorld)) (episodesUrl 11) = 0
   \<and> (\<exists>w1. step sampleBrowser (OpenShow 11) sampleWorld = Some w1
         \<and> requests (net w1) = requests (net sampleWorld) @ [episodesUrl 11])
   \<and> (\<exists>w' heading. step sampleBrowser (OpenShow 10) sampleWorld = Some w'
         \<and> net w' = net sampleWorld \<and> root w' = EpisodePage heading sampleEpisodes)"
proof -
  have l: "listening sampleWorld"
    by (simp add: sampleWorld_def session_eval)
  have c: "episodesByShowId (state sampleWorld) (String_js 10) = Some sampleEpisodes"
    by (simp add: sampleWorld_def session_eval)
  have n: "OpenShow 11 \<notin> set sampleStart"
    by (simp add: sampleStart_def)
  have s: "status (state sampleWorld) = Loaded"
    by (simp add: sampleWorld_def session_eval)
  show ?thesis
    using l c n s sampleWorld_run
      open_show_fetches_once [OF sampleWorld_run, of 10 sampleEpisodes]
      open_show_fetches_once [OF sampleWorld_run, of 11 sampleEpisodes]
    by blast
qed

text \<open>
  Claim C2, amended. A change of the episode search text clears the selected episode id.
  A change of the episode selection stores the selected id and leaves the search text as
  it was (so both can be non-empty).
\<close>

theorem search_change_clears_selection:
  "selectedEpisodeId (state (episodeSearchDidChange pf v w)) = []
   \<and> episodeSearchText (state (episodeSearchDidChange pf v w)) = v
   \<and> selectedEpisodeId (state (episodeSelectionDidChange pf v w)) = v
   \<and> episodeSearchText (state (episodeSelectionDidChange pf v w)) = episodeSearchText (state w)"
  by (simp add: episodeSearchDidChange_def episodeSelectionDidChange_def)

text \<open>
  Claim C2 as stated fails: after typing \<open>pilot\<close> into the episode search and then picking
  episode 5 in the selector, the selected id and the search text are both non-empty.
\<close>

theorem selection_keeps_search_counterexample:
  "map_option (selectedEpisodeId \<circ> state)
     (run sampleBrowser (sampleStart @ [EpisodeSearchInput ''pilot'', EpisodeSelectChange ''5''])
        initialWorld) = Some ''5''
   \<and> map_option (episodeSearchText \<circ> state)
     (run sampleBrowser (sampleStart @ [EpisodeSearchInput ''pilot'', EpisodeSelectChange ''5''])
        initialWorld) = Some ''pilot''"
  by (simp add: session_eval)

text \<open>
  Claim C5. A failed episode fetch is not reported: with the shows loaded and the
  episodes of show 10 stored, opening show 11 with a network failure leaves the status
  at loading, the error message empty and the page at the loading line. The shows and
  the stored episodes of show 10 are as before, but going back, or opening show 10
  again, still displays the loading line. A failure of the first fetch, of the shows,
  does set the error status and displays its message.
\<close>

theorem episode_fetch_failure_leaves_loading:
  "map_option (status \<circ> state) (run sampleBrowser failingSession initialWorld) = Some Loading
   \<and> map_option (errorMessage \<circ> state) (run sampleBrowser failingSession initialWorld) = Some []
   \<and> map_option root (run sampleBrowser failingSession initialWorld) = Some (Message loadingText)
   \<and> map_option (tvShows \<circ> state) (run sampleBrowser failingSession initialWorld)
       = Some (alphabeticallyOrdered sampleBrowser sampleShows)
   \<and> map_option (cachedEpisodes (String_js 10)) (run sampleBrowser failingSession initialWorld)
       = Some (Some sampleEpisodes)
   \<and> map_option root (run sampleBrowser (failingSession @ [BackClick]) initialWorld)
       = Some (Message loadingText)
   \<and> map_option root (run sampleBrowser (failingSession @ [OpenShow 10]) initialWorld)
       = Some (Message loadingText)
   \<and> map_option (status \<circ> state)
       (run sampleBrowser [PageLoaded, NetworkAnswer showsUrl NetworkError] initialWorld)
       = Some Error
   \<and> map_option root
       (run sampleBrowser [PageLoaded, NetworkAnswer showsUrl NetworkError] initialWorld)
       = Some (Message ''Unable to load shows. Please try again.'')"
  by (simp add: failingSession_def session_eval)

end
